theory Spec2Isabelle
  imports Main
begin

section \<open>The promise of how-then-works/promise.js\<close>

text \<open>
  The source is one constructor function, \<^verbatim>\<open>Promise(executorFn)\<close>. Every call of it
  creates three closure variables (\<^verbatim>\<open>state\<close>, \<^verbatim>\<open>value\<close>, \<^verbatim>\<open>deferred\<close>), two
  closure-local functions (\<^verbatim>\<open>resolve\<close>, \<^verbatim>\<open>handle\<close>) and one object, \<^verbatim>\<open>this\<close>, to
  which exactly one property is assigned: \<^verbatim>\<open>this.then\<close>. The model keeps all of that
  in an explicit heap, indexed by the address of the construction.
\<close>

subsection \<open>Values, callbacks, errors\<close>

text \<open>A JavaScript value: \<^verbatim>\<open>undefined\<close>, or a value of the payload type.\<close>

datatype 'a jsval = Undefined | Val 'a

text \<open>What a call of a user callback does: it returns a value or it throws one.\<close>

datatype 'a outcome = Returns "'a jsval" | Throws "'a jsval"

text \<open>
  The exceptions of the model: the engine's TypeError (calling something that is not a
  function) and a value thrown by user code.
\<close>

datatype 'a error = TypeError | Thrown "'a jsval"

type_synonym addr = nat

datatype pstate = pending | resolved

text \<open>
  The handler object built in \<^verbatim>\<open>then\<close>:
  \<^verbatim>\<open>{ onResolved: onResolved, resolve: childResolveMethod }\<close>.
  \<^verbatim>\<open>onResolved\<close> is \<open>None\<close> when the argument of \<^verbatim>\<open>then\<close> is absent (falsy), and
  the \<^verbatim>\<open>resolve\<close> closure of a promise is named by the address of that promise. The
  field \<^verbatim>\<open>resolve\<close> is written \<open>h_resolve\<close>, and the variable \<^verbatim>\<open>value\<close> below is
  written \<open>val\<close>.
\<close>

record 'a handler =
  onResolved :: "('a jsval \<Rightarrow> 'a outcome) option"
  h_resolve :: addr

text \<open>
  One construction: the closure variables, and the names of the own properties of the
  object \<^verbatim>\<open>this\<close> (the value of a property is the closure of the same name).
\<close>

record 'a promise =
  state :: pstate
  val :: "'a jsval"
  deferred :: "'a handler option"
  props :: "string list"

text \<open>
  The heap: the constructions by address, the next free address, the microtask queue
  and the log of the calls of \<^verbatim>\<open>onResolved\<close> callbacks. A queued microtask is the arrow
  function of \<^verbatim>\<open>handle\<close>; it closes over the handler and over the variables of the
  promise that queued it, so it is the pair of that promise's address and the handler.
  A logged call is the pair of the handler's child and the argument passed.
\<close>

record 'a heap =
  cells :: "addr \<Rightarrow> 'a promise"
  nextAddr :: addr
  microtasks :: "(addr \<times> 'a handler) list"
  calls :: "(addr \<times> 'a jsval) list"

text \<open>An address at which nothing has been constructed.\<close>

definition blank :: "'a promise" where
  "blank = \<lparr>state = pending, val = Undefined, deferred = None, props = []\<rparr>"

text \<open>
  What the constructor sets up before it calls the executor: \<^verbatim>\<open>state = 'pending'\<close>,
  \<^verbatim>\<open>value\<close> undefined, \<^verbatim>\<open>deferred = null\<close>, and the single assignment
  \<^verbatim>\<open>this.then = ...\<close>. Neither \<^verbatim>\<open>resolve\<close> nor \<^verbatim>\<open>handle\<close> is assigned to
  \<^verbatim>\<open>this\<close>.
\<close>

definition fresh :: "'a promise" where
  "fresh = \<lparr>state = pending, val = Undefined, deferred = None, props = [''then'']\<rparr>"

definition empty_heap :: "'a heap" where
  "empty_heap = \<lparr>cells = (\<lambda>_. blank), nextAddr = 0, microtasks = [], calls = []\<rparr>"

definition upd :: "addr \<Rightarrow> ('a promise \<Rightarrow> 'a promise) \<Rightarrow> 'a heap \<Rightarrow> 'a heap" where
  "upd c f h = h\<lparr>cells := (cells h)(c := f (cells h c))\<rparr>"

subsection \<open>resolve and handle\<close>

text \<open>
  Modelled from the spec: \<^verbatim>\<open>queueMicrotask\<close> is not defined in the repository (the README
  says the name is made up); the spec describes it as appending a callback to a FIFO
  queue that the host drains later.
\<close>

definition queueMicrotask :: "addr \<times> 'a handler \<Rightarrow> 'a heap \<Rightarrow> 'a heap" where
  "queueMicrotask t h = h\<lparr>microtasks := microtasks h @ [t]\<rparr>"

text \<open>
  \<^verbatim>\<open>resolve\<close> and \<^verbatim>\<open>handle\<close> of the promise at address \<open>c\<close>. They call each other
  through the handler's \<^verbatim>\<open>resolve\<close>, which belongs to another promise, so the nesting of
  calls is bounded by a fuel argument (the depth of the call stack); \<open>None\<close> is a call
  that does not return.
\<close>

fun resolve :: "nat \<Rightarrow> addr \<Rightarrow> 'a jsval \<Rightarrow> 'a heap \<Rightarrow> 'a heap option"
  and handle :: "nat \<Rightarrow> addr \<Rightarrow> 'a handler \<Rightarrow> 'a heap \<Rightarrow> 'a heap option" where
  "resolve 0 c newValue h = None"
| "resolve (Suc n) c newValue h =
     (let h1 = upd c (\<lambda>p. p\<lparr>val := newValue\<rparr>) h;
          h2 = upd c (\<lambda>p. p\<lparr>state := resolved\<rparr>) h1
      in case deferred (cells h2 c) of
           None \<Rightarrow> Some h2
         | Some d \<Rightarrow> handle n c d h2)"
| "handle n c handler h =
     (if state (cells h c) = pending
      then Some (upd c (\<lambda>p. p\<lparr>deferred := Some handler\<rparr>) h)
      else case onResolved handler of
             None \<Rightarrow> resolve n (h_resolve handler) (val (cells h c)) h
           | Some f \<Rightarrow> Some (queueMicrotask (c, handler) h))"

subsection \<open>The microtask and the host's drain\<close>

text \<open>
  Running the microtask at the head of the queue:
  \<^verbatim>\<open>var ret = handler.onResolved(value); handler.resolve(ret);\<close>
  where \<^verbatim>\<open>value\<close> is read when the microtask runs. A thrown value leaves the microtask.
\<close>

definition run_microtask :: "nat \<Rightarrow> 'a heap \<Rightarrow> (('a error + unit) \<times> 'a heap) option" where
  "run_microtask n h =
     (case microtasks h of
        [] \<Rightarrow> Some (Inr (), h)
      | (c, handler) # rest \<Rightarrow>
          (let h1 = h\<lparr>microtasks := rest\<rparr> in
           case onResolved handler of
             None \<Rightarrow> Some (Inl TypeError, h1)
           | Some f \<Rightarrow>
               (let v = val (cells h1 c);
                    h2 = h1\<lparr>calls := calls h1 @ [(h_resolve handler, v)]\<rparr>
                in case f v of
                     Throws e \<Rightarrow> Some (Inl (Thrown e), h2)
                   | Returns ret \<Rightarrow>
                       (case resolve n (h_resolve handler) ret h2 of
                          None \<Rightarrow> None
                        | Some h3 \<Rightarrow> Some (Inr (), h3)))))"

text \<open>
  Modelled from the spec: the host's drain loop is not in the repository; the spec says
  the queue is drained in FIFO order after the current synchronous unit of work. An
  exception that leaves a microtask is reported by the host and the drain goes on.
\<close>

fun drain :: "nat \<Rightarrow> 'a heap \<Rightarrow> 'a heap option" where
  "drain 0 h = (if microtasks h = [] then Some h else None)"
| "drain (Suc n) h =
     (if microtasks h = [] then Some h
      else case run_microtask n h of
             None \<Rightarrow> None
           | Some (r, h') \<Rightarrow> drain n h')"

subsection \<open>The constructor and then\<close>

text \<open>
  \<^verbatim>\<open>new Promise(executorFn)\<close>: the variables are initialised, \<^verbatim>\<open>this.then\<close> is
  assigned, and \<^verbatim>\<open>executorFn(resolve)\<close> is called last, with no exception handler
  around it. The executor receives the new promise's \<^verbatim>\<open>resolve\<close>, that is, its address.
\<close>

type_synonym 'a executor = "addr \<Rightarrow> 'a heap \<Rightarrow> (('a error + unit) \<times> 'a heap) option"

definition Promise :: "'a executor \<Rightarrow> 'a heap \<Rightarrow> (('a error + addr) \<times> 'a heap) option" where
  "Promise executorFn h =
     (let this = nextAddr h;
          h1 = h\<lparr>cells := (cells h)(this := fresh), nextAddr := Suc this\<rparr>
      in case executorFn this h1 of
           None \<Rightarrow> None
         | Some (Inl e, h2) \<Rightarrow> Some (Inl e, h2)
         | Some (Inr u, h2) \<Rightarrow> Some (Inr this, h2))"

text \<open>
  \<^verbatim>\<open>childExecutorFn\<close> of \<^verbatim>\<open>then\<close>. The call \<^verbatim>\<open>parent.handle(handler)\<close> reads the
  property \<^verbatim>\<open>handle\<close> of the object \<^verbatim>\<open>parent\<close>; when the object has no such property
  the value read is \<^verbatim>\<open>undefined\<close> and calling it raises a TypeError, which leaves the
  executor. An own property holds the closure of the same name, so with a property
  \<^verbatim>\<open>handle\<close> the call would be a call of the parent's \<^verbatim>\<open>handle\<close>.
\<close>

definition childExecutorFn ::
    "nat \<Rightarrow> addr \<Rightarrow> ('a jsval \<Rightarrow> 'a outcome) option \<Rightarrow> 'a executor" where
  "childExecutorFn n parent onRes childResolveMethod h =
     (let handler = \<lparr>onResolved = onRes, h_resolve = childResolveMethod\<rparr>
      in if ''handle'' \<in> set (props (cells h parent))
         then (case handle n parent handler h of
                 None \<Rightarrow> None
               | Some h' \<Rightarrow> Some (Inr (), h'))
         else Some (Inl TypeError, h))"

definition then_op ::
    "nat \<Rightarrow> addr \<Rightarrow> ('a jsval \<Rightarrow> 'a outcome) option \<Rightarrow> 'a heap
      \<Rightarrow> (('a error + addr) \<times> 'a heap) option" where
  "then_op n parent onRes h = Promise (childExecutorFn n parent onRes) h"

subsection \<open>User code\<close>

text \<open>
  A producer passed to the constructor, as the sequence of what it does with the
  \<^verbatim>\<open>resolve\<close> it is handed: it calls it, or it throws. A producer that only stores
  \<^verbatim>\<open>resolve\<close> for later is the empty sequence.
\<close>

datatype 'a stmt = Call_resolve "'a jsval" | Throw "'a jsval"

fun run_producer :: "nat \<Rightarrow> 'a stmt list \<Rightarrow> 'a executor" where
  "run_producer n [] r h = Some (Inr (), h)"
| "run_producer n (Call_resolve v # ss) r h =
     (case resolve n r v h of
        None \<Rightarrow> None
      | Some h' \<Rightarrow> run_producer n ss r h')"
| "run_producer n (Throw e # ss) r h = Some (Inl (Thrown e), h)"

text \<open>
  The heaps a program can build with the constructor, \<^verbatim>\<open>then\<close>, a stored \<^verbatim>\<open>resolve\<close>
  and the host running microtasks. The program uses the promise objects as the source
  provides them: it assigns no property of its own to them.
\<close>

inductive reachable :: "'a heap \<Rightarrow> bool" where
  init: "reachable empty_heap"
| construct: "reachable h \<Longrightarrow> Promise (run_producer n ss) h = Some (r, h') \<Longrightarrow> reachable h'"
| chain: "reachable h \<Longrightarrow> parent < nextAddr h \<Longrightarrow> then_op n parent f h = Some (r, h')
          \<Longrightarrow> reachable h'"
| settle: "reachable h \<Longrightarrow> c < nextAddr h \<Longrightarrow> resolve n c v h = Some h' \<Longrightarrow> reachable h'"
| microtask: "reachable h \<Longrightarrow> run_microtask n h = Some (r, h') \<Longrightarrow> reachable h'"

text \<open>
  A heap in which every stored handler belongs to a promise constructed later than the
  promise that stores it, as \<^verbatim>\<open>then\<close> constructs the child after the parent exists.
\<close>

definition ordered :: "'a heap \<Rightarrow> bool" where
  "ordered h =
     list_all (\<lambda>c. case deferred (cells h c) of
                     None \<Rightarrow> True
                   | Some d \<Rightarrow> c < h_resolve d \<and> h_resolve d < nextAddr h)
       [0..<nextAddr h]"

subsection \<open>Auxiliary notions\<close>

text \<open>The heap after the constructor's initialisation at the next free address.\<close>

definition alloc :: "'a heap \<Rightarrow> 'a heap" where
  "alloc h = h\<lparr>cells := (cells h)(nextAddr h := fresh), nextAddr := Suc (nextAddr h)\<rparr>"

text \<open>The heap after the two assignments at the start of \<^verbatim>\<open>resolve\<close>.\<close>

definition recorded :: "addr \<Rightarrow> 'a jsval \<Rightarrow> 'a heap \<Rightarrow> 'a heap" where
  "recorded c v h = upd c (\<lambda>p. p\<lparr>state := resolved\<rparr>) (upd c (\<lambda>p. p\<lparr>val := v\<rparr>) h)"

definition state_at :: "addr \<Rightarrow> 'a heap \<Rightarrow> pstate" where
  "state_at c h = state (cells h c)"

definition val_at :: "addr \<Rightarrow> 'a heap \<Rightarrow> 'a jsval" where
  "val_at c h = val (cells h c)"

text \<open>
  Two heaps with the same allocation, the same call log, and the same stored handlers
  and properties at every address.
\<close>

definition same_wiring :: "'a heap \<Rightarrow> 'a heap \<Rightarrow> bool" where
  "same_wiring h h' \<longleftrightarrow> nextAddr h' = nextAddr h \<and> calls h' = calls h \<and>
     (\<forall>x. deferred (cells h' x) = deferred (cells h x) \<and> props (cells h' x) = props (cells h x))"

text \<open>Every promise of the second heap is as in the first, or resolved with \<open>v\<close>.\<close>

definition settled_or_same :: "'a jsval \<Rightarrow> 'a heap \<Rightarrow> 'a heap \<Rightarrow> bool" where
  "settled_or_same v h h' \<longleftrightarrow>
     (\<forall>x. cells h' x = cells h x \<or> (state (cells h' x) = resolved \<and> val (cells h' x) = v))"

text \<open>
  A heap in which no handler is stored, no microtask is queued, no callback has been
  called, and no object has a property named \<^verbatim>\<open>handle\<close>.
\<close>

definition unwired :: "'a heap \<Rightarrow> bool" where
  "unwired h \<longleftrightarrow> microtasks h = [] \<and> calls h = [] \<and>
     (\<forall>c. deferred (cells h c) = None \<and> ''handle'' \<notin> set (props (cells h c)))"

subsection \<open>Example programs\<close>

text \<open>
  \<^verbatim>\<open>x => x * 2\<close>, \<^verbatim>\<open>x => x + 1\<close> and \<^verbatim>\<open>value => console.log(value)\<close> on integers.
  The examples apply the first two to small integers only, never to \<^verbatim>\<open>undefined\<close>
  (where JavaScript gives NaN) and never beyond the integers a double holds exactly.
\<close>

definition times2 :: "int jsval \<Rightarrow> int outcome" where
  "times2 x = (case x of Undefined \<Rightarrow> Returns Undefined | Val i \<Rightarrow> Returns (Val (2 * i)))"

definition plus1 :: "int jsval \<Rightarrow> int outcome" where
  "plus1 x = (case x of Undefined \<Rightarrow> Returns Undefined | Val i \<Rightarrow> Returns (Val (i + 1)))"

definition log_value :: "int jsval \<Rightarrow> int outcome" where
  "log_value x = Returns Undefined"

text \<open>
  The heap after \<^verbatim>\<open>new Promise(resolve => resolve(v))\<close> in the empty heap. The heap
  after \<^verbatim>\<open>new Promise(resolve => { ... })\<close> with a producer that only stores
  \<^verbatim>\<open>resolve\<close> is \<open>alloc empty_heap\<close>.
\<close>

definition settled_heap :: "'a jsval \<Rightarrow> 'a heap" where
  "settled_heap v =
     \<lparr>cells = (\<lambda>_. blank)(0 := \<lparr>state = resolved, val = v, deferred = None, props = [''then'']\<rparr>),
      nextAddr = 1, microtasks = [], calls = []\<rparr>"

text \<open>
  The heap the README's walk-through describes after \<^verbatim>\<open>then\<close>: the pending promise
  alpha at address 0 holds the handler whose \<^verbatim>\<open>resolve\<close> is that of the pending
  promise beta at address 1.
\<close>

definition wired_heap :: "('a jsval \<Rightarrow> 'a outcome) option \<Rightarrow> 'a heap" where
  "wired_heap cb =
     \<lparr>cells = (\<lambda>_. blank)(0 := fresh\<lparr>deferred := Some \<lparr>onResolved = cb, h_resolve = 1\<rparr>\<rparr>,
                            1 := fresh),
      nextAddr = 2, microtasks = [], calls = []\<rparr>"

section \<open>Basic facts\<close>

declare handle.simps [simp del]

lemma cells_upd [simp]: "cells (upd c f h) x = (if x = c then f (cells h c) else cells h x)"
  by (simp add: upd_def)

lemma other_upd [simp]:
  "nextAddr (upd c f h) = nextAddr h" "microtasks (upd c f h) = microtasks h"
  "calls (upd c f h) = calls h"
  by (simp_all add: upd_def)

lemma queueMicrotask_simps [simp]:
  "cells (queueMicrotask t h) = cells h" "nextAddr (queueMicrotask t h) = nextAddr h"
  "microtasks (queueMicrotask t h) = microtasks h @ [t]" "calls (queueMicrotask t h) = calls h"
  by (simp_all add: queueMicrotask_def)

lemma cells_recorded [simp]:
  "cells (recorded c v h) x =
     (if x = c then (cells h c)\<lparr>val := v, state := resolved\<rparr> else cells h x)"
  by (simp add: recorded_def)

lemma other_recorded [simp]:
  "nextAddr (recorded c v h) = nextAddr h" "microtasks (recorded c v h) = microtasks h"
  "calls (recorded c v h) = calls h"
  by (simp_all add: recorded_def)

lemma alloc_simps [simp]:
  "nextAddr (alloc h) = Suc (nextAddr h)" "microtasks (alloc h) = microtasks h"
  "calls (alloc h) = calls h"
  "cells (alloc h) x = (if x = nextAddr h then fresh else cells h x)"
  by (simp_all add: alloc_def)

lemma fresh_simps [simp]:
  "state fresh = pending" "val fresh = Undefined" "deferred fresh = None"
  "props fresh = [''then'']"
  by (simp_all add: fresh_def)

lemma blank_simps [simp]:
  "state blank = pending" "val blank = Undefined" "deferred blank = None" "props blank = []"
  by (simp_all add: blank_def)

lemma empty_heap_simps [simp]:
  "nextAddr empty_heap = 0" "microtasks empty_heap = []" "calls empty_heap = []"
  "cells empty_heap x = blank"
  by (simp_all add: empty_heap_def)

lemma settled_heap_simps [simp]:
  "nextAddr (settled_heap v) = 1" "microtasks (settled_heap v) = []" "calls (settled_heap v) = []"
  "cells (settled_heap v) 0 = \<lparr>state = resolved, val = v, deferred = None, props = [''then'']\<rparr>"
  by (simp_all add: settled_heap_def)

subsection \<open>The equations of resolve and handle, branch by branch\<close>

lemma resolve_Suc:
  "resolve (Suc n) c v h =
     (case deferred (cells h c) of
        None \<Rightarrow> Some (recorded c v h)
      | Some d \<Rightarrow> handle n c d (recorded c v h))"
  by (simp add: recorded_def split: option.splits)

declare resolve.simps(2) [simp del]

lemma handle_pending:
  "state (cells h c) = pending \<Longrightarrow>
     handle n c d h = Some (upd c (\<lambda>p. p\<lparr>deferred := Some d\<rparr>) h)"
  by (simp add: handle.simps)

lemma handle_callback:
  "state (cells h c) = resolved \<Longrightarrow> onResolved d = Some f \<Longrightarrow>
     handle n c d h = Some (queueMicrotask (c, d) h)"
  by (simp add: handle.simps)

lemma handle_passthrough:
  "state (cells h c) = resolved \<Longrightarrow> onResolved d = None \<Longrightarrow>
     handle n c d h = resolve n (h_resolve d) (val (cells h c)) h"
  by (simp add: handle.simps)

lemma resolve_bare:
  "deferred (cells h c) = None \<Longrightarrow> resolve (Suc n) c v h = Some (recorded c v h)"
  by (simp add: resolve_Suc)

lemma resolve_callback:
  "deferred (cells h c) = Some d \<Longrightarrow> onResolved d = Some f \<Longrightarrow>
     resolve (Suc n) c v h = Some (queueMicrotask (c, d) (recorded c v h))"
  by (simp add: resolve_Suc handle_callback)

lemma resolve_passthrough:
  "deferred (cells h c) = Some d \<Longrightarrow> onResolved d = None \<Longrightarrow>
     resolve (Suc n) c v h = resolve n (h_resolve d) v (recorded c v h)"
  by (simp add: resolve_Suc handle_passthrough)

lemma run_microtask_callback:
  "microtasks h = (c, d) # rest \<Longrightarrow> onResolved d = Some f \<Longrightarrow>
   f (val (cells h c)) = Returns w \<Longrightarrow> deferred (cells h (h_resolve d)) = None \<Longrightarrow>
     run_microtask (Suc m) h =
       Some (Inr (), recorded (h_resolve d) w
          (h\<lparr>microtasks := rest, calls := calls h @ [(h_resolve d, val (cells h c))]\<rparr>))"
  by (simp add: run_microtask_def resolve_bare)

lemma drain_empty: "microtasks h = [] \<Longrightarrow> drain k h = Some h"
  by (cases k) simp_all

lemma Promise_alloc:
  "Promise executorFn h =
     (case executorFn (nextAddr h) (alloc h) of
        None \<Rightarrow> None
      | Some (Inl e, h2) \<Rightarrow> Some (Inl e, h2)
      | Some (Inr u, h2) \<Rightarrow> Some (Inr (nextAddr h), h2))"
  by (simp add: Promise_def alloc_def Let_def)

subsection \<open>What a call of resolve leaves unchanged\<close>

lemma same_wiring_refl [simp]: "same_wiring h h"
  by (simp add: same_wiring_def)

lemma same_wiring_trans: "same_wiring h h1 \<Longrightarrow> same_wiring h1 h2 \<Longrightarrow> same_wiring h h2"
  by (simp add: same_wiring_def)

lemma same_wiring_recorded [simp]: "same_wiring h (recorded c v h)"
  by (simp add: same_wiring_def)

lemma same_wiring_queue [simp]: "same_wiring h (queueMicrotask t h)"
  by (simp add: same_wiring_def)

lemma resolve_frame:
  "resolve n c v h = Some h' \<Longrightarrow> same_wiring h h'"
  and handle_frame:
  "handle n c d h = Some h' \<Longrightarrow> state (cells h c) = resolved \<Longrightarrow> same_wiring h h'"
proof (induction n c v h and n c d h arbitrary: h' and h' rule: resolve_handle.induct)
  case (1 c newValue h)
  then show ?case by simp
next
  case (2 n c newValue h)
  have w: "same_wiring h (recorded c newValue h)" by simp
  show ?case
  proof (cases "deferred (cells h c)")
    case None
    with "2.prems" have "h' = recorded c newValue h" by (simp add: resolve_Suc)
    with w show ?thesis by simp
  next
    case (Some d)
    with "2.prems" have run: "handle n c d (recorded c newValue h) = Some h'"
      by (simp add: resolve_Suc)
    have "deferred (cells (recorded c newValue h) c) = Some d" using Some by simp
    moreover have "state (cells (recorded c newValue h) c) = resolved" by simp
    ultimately have "same_wiring (recorded c newValue h) h'"
      using "2.IH" [OF refl refl, of d h'] run by (simp add: recorded_def)
    with w show ?thesis by (rule same_wiring_trans)
  qed
next
  case (3 n c handler h)
  show ?case
  proof (cases "onResolved handler")
    case None
    with "3.prems" have "resolve n (h_resolve handler) (val (cells h c)) h = Some h'"
      by (simp add: handle_passthrough)
    with "3.IH" "3.prems" None show ?thesis by simp
  next
    case (Some f)
    with "3.prems" have "h' = queueMicrotask (c, handler) h" by (simp add: handle_callback)
    then show ?thesis by simp
  qed
qed

subsection \<open>What a call of resolve records\<close>

lemma settled_or_same_refl [simp]: "settled_or_same v h h"
  by (simp add: settled_or_same_def)

lemma settled_or_same_trans:
  "settled_or_same v h h1 \<Longrightarrow> settled_or_same v h1 h2 \<Longrightarrow> settled_or_same v h h2"
  unfolding settled_or_same_def by metis

lemma settled_or_same_recorded [simp]: "settled_or_same v h (recorded c v h)"
  by (simp add: settled_or_same_def)

lemma settled_or_same_queue [simp]: "settled_or_same v h (queueMicrotask t h)"
  by (simp add: settled_or_same_def)

lemma settled_or_same_keeps:
  "settled_or_same v h h' \<Longrightarrow> state (cells h c) = resolved \<Longrightarrow> val (cells h c) = v
    \<Longrightarrow> state (cells h' c) = resolved \<and> val (cells h' c) = v"
  unfolding settled_or_same_def by metis

lemma resolve_touch:
  "resolve n c v h = Some h' \<Longrightarrow>
     settled_or_same v h h' \<and> state (cells h' c) = resolved \<and> val (cells h' c) = v"
  and handle_touch:
  "handle n c d h = Some h' \<Longrightarrow> state (cells h c) = resolved \<Longrightarrow>
     settled_or_same (val (cells h c)) h h'"
proof (induction n c v h and n c d h arbitrary: h' and h' rule: resolve_handle.induct)
  case (1 c newValue h)
  then show ?case by simp
next
  case (2 n c newValue h)
  define h2 where "h2 = recorded c newValue h"
  have s: "settled_or_same newValue h h2" by (simp add: h2_def)
  have c: "state (cells h2 c) = resolved" "val (cells h2 c) = newValue"
    by (simp_all add: h2_def)
  show ?case
  proof (cases "deferred (cells h c)")
    case None
    with "2.prems" have "h' = h2" by (simp add: h2_def resolve_Suc)
    with s c show ?thesis by simp
  next
    case (Some d)
    with "2.prems" have run: "handle n c d h2 = Some h'" by (simp add: h2_def resolve_Suc)
    have "deferred (cells h2 c) = Some d" using Some by (simp add: h2_def)
    then have "settled_or_same (val (cells h2 c)) h2 h'"
      using "2.IH" [OF refl refl, of d h'] run c by (simp add: h2_def recorded_def)
    then have t: "settled_or_same newValue h2 h'" using c by simp
    from settled_or_same_trans [OF s t] settled_or_same_keeps [OF t c]
    show ?thesis by simp
  qed
next
  case (3 n c handler h)
  show ?case
  proof (cases "onResolved handler")
    case None
    with "3.prems" have "resolve n (h_resolve handler) (val (cells h c)) h = Some h'"
      by (simp add: handle_passthrough)
    with "3.IH" "3.prems" None show ?thesis by simp
  next
    case (Some f)
    with "3.prems" have "h' = queueMicrotask (c, handler) h" by (simp add: handle_callback)
    then show ?thesis by simp
  qed
qed

subsection \<open>When a call of resolve returns\<close>

lemma ordered_iff:
  "ordered h \<longleftrightarrow> (\<forall>c d. c < nextAddr h \<longrightarrow> deferred (cells h c) = Some d
      \<longrightarrow> c < h_resolve d \<and> h_resolve d < nextAddr h)"
  by (auto simp: ordered_def list_all_iff split: option.splits)

lemma ordered_same_wiring: "same_wiring h h' \<Longrightarrow> ordered h \<Longrightarrow> ordered h'"
  by (simp add: ordered_iff same_wiring_def)

lemma ordered_wired_heap: "ordered (wired_heap cb)"
  by (simp add: ordered_def wired_heap_def upt_rec)

text \<open>
  In an ordered heap the handlers lead to ever later addresses, so a stack as deep as
  the number of addresses from \<open>c\<close> on is enough for \<^verbatim>\<open>resolve\<close> to return.
\<close>

lemma resolve_returns:
  "ordered h \<Longrightarrow> c < nextAddr h \<Longrightarrow> nextAddr h - c \<le> n \<Longrightarrow> \<exists>h'. resolve n c v h = Some h'"
proof (induction n arbitrary: c v h)
  case 0
  then show ?case by simp
next
  case (Suc n)
  have o2: "ordered (recorded c v h)"
    using same_wiring_recorded Suc.prems(1) by (rule ordered_same_wiring)
  show ?case
  proof (cases "deferred (cells h c)")
    case None
    then show ?thesis by (simp add: resolve_bare)
  next
    case (Some d)
    from Some Suc.prems have lt: "c < h_resolve d" "h_resolve d < nextAddr h"
      by (auto simp: ordered_iff)
    show ?thesis
    proof (cases "onResolved d")
      case None
      have "nextAddr h - h_resolve d \<le> n" using lt Suc.prems(3) by linarith
      then have "\<exists>h'. resolve n (h_resolve d) v (recorded c v h) = Some h'"
        using Suc.IH [OF o2, of "h_resolve d" v] lt by simp
      with None Some show ?thesis by (simp add: resolve_passthrough)
    next
      case (Some f)
      with \<open>deferred (cells h c) = Some d\<close> show ?thesis by (simp add: resolve_callback)
    qed
  qed
qed

subsection \<open>The heaps a program can build\<close>

lemma settled_heap_built:
  "Promise (run_producer (Suc n) [Call_resolve v]) empty_heap = Some (Inr 0, settled_heap v)"
  by (simp add: Promise_def empty_heap_def settled_heap_def resolve_Suc recorded_def upd_def
      blank_def fresh_def)

lemma stored_heap_built:
  "Promise (run_producer n []) empty_heap = Some (Inr 0, alloc empty_heap)"
  by (simp add: Promise_alloc)

lemma then_op_no_property:
  "''handle'' \<notin> set (props (cells h parent)) \<Longrightarrow>
     then_op n parent onRes h = Some (Inl TypeError, alloc h)"
  by (simp add: then_op_def Promise_alloc childExecutorFn_def)

lemma unwired_alloc: "unwired h \<Longrightarrow> unwired (alloc h)"
  by (simp add: unwired_def)

lemma unwired_resolve: "unwired h \<Longrightarrow> resolve n c v h = Some h' \<Longrightarrow> unwired h'"
  by (cases n) (auto simp: unwired_def resolve_bare split: if_splits)

lemma unwired_run_producer:
  "unwired h \<Longrightarrow> run_producer n ss r h = Some (res, h') \<Longrightarrow> unwired h'"
proof (induction ss arbitrary: h)
  case Nil
  then show ?case by simp
next
  case (Cons s ss)
  show ?case
  proof (cases s)
    case (Call_resolve v)
    with Cons.prems obtain h1 where
      "resolve n r v h = Some h1" "run_producer n ss r h1 = Some (res, h')"
      by (auto split: option.splits)
    with Cons.IH Cons.prems(1) show ?thesis by (blast intro: unwired_resolve)
  next
    case (Throw e)
    with Cons.prems show ?thesis by simp
  qed
qed

lemma unwired_Promise:
  assumes "unwired h" and "Promise (run_producer n ss) h = Some (res, h')"
  shows "unwired h'"
proof -
  from assms(2) obtain r where "run_producer n ss (nextAddr h) (alloc h) = Some (r, h')"
    by (auto simp: Promise_alloc split: option.splits sum.splits)
  with unwired_alloc [OF assms(1)] show ?thesis by (rule unwired_run_producer)
qed

lemma unwired_then_op:
  assumes "unwired h" and "then_op n parent f h = Some (res, h')"
  shows "unwired h'"
proof -
  from assms(1) have "''handle'' \<notin> set (props (cells h parent))" by (simp add: unwired_def)
  from then_op_no_property [OF this] assms(2) have "h' = alloc h" by simp
  with unwired_alloc [OF assms(1)] show ?thesis by simp
qed

lemma unwired_run_microtask: "unwired h \<Longrightarrow> run_microtask n h = Some (res, h') \<Longrightarrow> unwired h'"
  by (simp add: run_microtask_def unwired_def)

text \<open>
  No program built from the constructor, \<^verbatim>\<open>then\<close>, \<^verbatim>\<open>resolve\<close> and the microtasks
  ever stores a handler, queues a microtask or calls a callback.
\<close>

lemma reachable_unwired: "reachable h \<Longrightarrow> unwired h"
proof (induction rule: reachable.induct)
  case init
  show ?case by (simp add: unwired_def)
next
  case (construct h n ss r h')
  then show ?case by (blast intro: unwired_Promise)
next
  case (chain h parent n f r h')
  then show ?case by (blast intro: unwired_then_op)
next
  case (settle h c n v h')
  then show ?case by (blast intro: unwired_resolve)
next
  case (microtask h n r h')
  then show ?case by (blast intro: unwired_run_microtask)
qed

lemma reachable_settled_heap: "reachable (settled_heap v)"
  using reachable.construct [OF reachable.init settled_heap_built] .

section \<open>The claims\<close>

subsection \<open>then\<close>

text \<open>
  C3. In every heap a program can build, and for every promise and every argument, a
  call of \<^verbatim>\<open>then\<close> raises a TypeError: the child's executor reads the property
  \<^verbatim>\<open>handle\<close> of the parent object, and the constructor never assigns one. The heap the
  call leaves differs from the heap before it only by the child the constructor had
  begun: no handler is stored at any address \<open>c\<close>, no microtask is queued, no callback
  has been called, and no child is returned.
\<close>

theorem then_raises_TypeError:
  assumes "reachable h"
  shows "then_op n parent onRes h = Some (Inl TypeError, alloc h) \<and>
         deferred (cells (alloc h) c) = None \<and>
         microtasks (alloc h) = [] \<and> calls (alloc h) = []"
proof -
  from assms have u: "unwired h" by (rule reachable_unwired)
  then have "''handle'' \<notin> set (props (cells h parent))" by (simp add: unwired_def)
  then have "then_op n parent onRes h = Some (Inl TypeError, alloc h)"
    by (rule then_op_no_property)
  with unwired_alloc [OF u] show ?thesis by (simp add: unwired_def)
qed

theorem then_raises_TypeError_witness:
  "reachable (settled_heap (Val (10::int))) \<and>
   then_op 1 0 None (settled_heap (Val (10::int)))
     = Some (Inl TypeError, alloc (settled_heap (Val 10))) \<and>
   deferred (cells (alloc (settled_heap (Val (10::int)))) 0) = None \<and>
   microtasks (alloc (settled_heap (Val (10::int)))) = [] \<and>
   calls (alloc (settled_heap (Val (10::int)))) = []"
  using then_raises_TypeError [OF reachable_settled_heap, of 1 0 None "Val 10" 0]
    reachable_settled_heap [of "Val (10::int)"] by simp

text \<open>
  What \<^verbatim>\<open>handle\<close> does when it is called directly with the handler that \<^verbatim>\<open>then\<close>
  builds, on a resolved parent and with a callback: the callback is not called, one
  microtask is queued, and running it calls the callback once on the parent's value and
  resolves the child with what it returns.
\<close>

lemma direct_attach_callback:
  assumes "parent < nextAddr h" and "state (cells h parent) = resolved"
    and "microtasks h = []" and "f (val (cells h parent)) = Returns w"
  shows "\<exists>h1 h2.
     handle n parent \<lparr>onResolved = Some f, h_resolve = nextAddr h\<rparr> (alloc h) = Some h1 \<and>
     state (cells h1 (nextAddr h)) = pending \<and> calls h1 = calls h \<and>
     run_microtask (Suc m) h1 = Some (Inr (), h2) \<and>
     calls h2 = calls h @ [(nextAddr h, val (cells h parent))] \<and>
     state (cells h2 (nextAddr h)) = resolved \<and> val (cells h2 (nextAddr h)) = w"
proof -
  define d where "d = \<lparr>onResolved = Some f, h_resolve = nextAddr h\<rparr>"
  define h1 where "h1 = queueMicrotask (parent, d) (alloc h)"
  define h2 where "h2 = recorded (nextAddr h) w
      (h1\<lparr>microtasks := [], calls := calls h1 @ [(nextAddr h, val (cells h1 parent))]\<rparr>)"
  have s1: "handle n parent d (alloc h) = Some h1"
    using assms(1,2) by (simp add: handle_callback h1_def d_def)
  have q1: "microtasks h1 = (parent, d) # []" using assms(3) by (simp add: h1_def)
  have v1: "val (cells h1 parent) = val (cells h parent)" using assms(1) by (simp add: h1_def)
  have d1: "deferred (cells h1 (h_resolve d)) = None" by (simp add: h1_def d_def)
  have s2: "run_microtask (Suc m) h1 = Some (Inr (), h2)"
    using run_microtask_callback [OF q1 _ _ d1, of f w m] assms(4) v1
    by (simp add: h2_def d_def)
  have p1: "state (cells h1 (nextAddr h)) = pending" "calls h1 = calls h"
    by (simp_all add: h1_def)
  have p2: "calls h2 = calls h @ [(nextAddr h, val (cells h parent))]"
    "state (cells h2 (nextAddr h)) = resolved" "val (cells h2 (nextAddr h)) = w"
    using v1 by (simp_all add: h2_def h1_def)
  from s1 s2 p1 p2 show ?thesis unfolding d_def by blast
qed

text \<open>
  The same without a callback: on a resolved parent \<^verbatim>\<open>handle\<close> resolves the child
  with the parent's value before it returns; on a pending parent it stores the handler,
  and the later \<^verbatim>\<open>resolve\<close> of the parent resolves the child with the same value before
  it returns.
\<close>

lemma direct_attach_passthrough:
  assumes "parent < nextAddr h"
  shows "state (cells h parent) = resolved \<Longrightarrow>
      handle (Suc n) parent \<lparr>onResolved = None, h_resolve = nextAddr h\<rparr> (alloc h)
        = Some (recorded (nextAddr h) (val (cells h parent)) (alloc h))"
    and "state (cells h parent) = pending \<Longrightarrow>
      \<exists>h1 h2. handle n parent \<lparr>onResolved = None, h_resolve = nextAddr h\<rparr> (alloc h) = Some h1 \<and>
        state (cells h1 (nextAddr h)) = pending \<and>
        resolve (Suc (Suc n)) parent v h1 = Some h2 \<and>
        state (cells h2 (nextAddr h)) = resolved \<and> val (cells h2 (nextAddr h)) = v \<and>
        calls h2 = calls h"
proof -
  assume "state (cells h parent) = resolved"
  with assms show "handle (Suc n) parent \<lparr>onResolved = None, h_resolve = nextAddr h\<rparr> (alloc h)
        = Some (recorded (nextAddr h) (val (cells h parent)) (alloc h))"
    by (simp add: handle_passthrough resolve_bare)
next
  assume p: "state (cells h parent) = pending"
  define d :: "'a handler" where "d = \<lparr>onResolved = None, h_resolve = nextAddr h\<rparr>"
  define h1 where "h1 = upd parent (\<lambda>p. p\<lparr>deferred := Some d\<rparr>) (alloc h)"
  define h2 where "h2 = recorded (nextAddr h) v (recorded parent v h1)"
  have s1: "handle n parent d (alloc h) = Some h1"
    using assms p by (simp add: handle_pending h1_def)
  have "deferred (cells h1 parent) = Some d" by (simp add: h1_def)
  then have "resolve (Suc (Suc n)) parent v h1 = resolve (Suc n) (nextAddr h) v (recorded parent v h1)"
    by (simp add: resolve_passthrough d_def)
  moreover have "deferred (cells (recorded parent v h1) (nextAddr h)) = None"
    using assms by (simp add: h1_def)
  ultimately have s2: "resolve (Suc (Suc n)) parent v h1 = Some h2"
    by (simp add: resolve_bare h2_def)
  have "state (cells h1 (nextAddr h)) = pending" "state (cells h2 (nextAddr h)) = resolved"
    "val (cells h2 (nextAddr h)) = v" "calls h2 = calls h"
    using assms by (simp_all add: h1_def h2_def)
  with s1 s2 show "\<exists>h1 h2. handle n parent \<lparr>onResolved = None, h_resolve = nextAddr h\<rparr> (alloc h) = Some h1 \<and>
        state (cells h1 (nextAddr h)) = pending \<and>
        resolve (Suc (Suc n)) parent v h1 = Some h2 \<and>
        state (cells h2 (nextAddr h)) = resolved \<and> val (cells h2 (nextAddr h)) = v \<and>
        calls h2 = calls h"
    unfolding d_def by blast
qed

text \<open>
  What \<^verbatim>\<open>handle\<close> and \<^verbatim>\<open>resolve\<close> do when a second handler is attached directly to a
  pending promise that already stores one: the stored handler is replaced, and on
  settlement only the second handler's callback runs; the first handler's child is
  left as it was.
\<close>

lemma direct_second_attach:
  assumes "state (cells h c) = pending" and "deferred (cells h c) = Some d1"
    and "onResolved d2 = Some f" and "h_resolve d1 = k1" and "h_resolve d2 = k2"
    and "k1 \<noteq> k2" and "k1 \<noteq> c" and "k2 \<noteq> c"
    and "deferred (cells h k2) = None" and "microtasks h = []" and "f v = Returns w"
  shows "\<exists>h1 h2 h3.
     handle n c d2 h = Some h1 \<and> deferred (cells h1 c) = Some d2 \<and>
     resolve (Suc n) c v h1 = Some h2 \<and> microtasks h2 = [(c, d2)] \<and>
     run_microtask (Suc m) h2 = Some (Inr (), h3) \<and>
     microtasks h3 = [] \<and> calls h3 = calls h @ [(k2, v)] \<and>
     cells h3 k1 = cells h k1 \<and>
     state (cells h3 k2) = resolved \<and> val (cells h3 k2) = w"
proof -
  define h1 where "h1 = upd c (\<lambda>p. p\<lparr>deferred := Some d2\<rparr>) h"
  define h2 where "h2 = queueMicrotask (c, d2) (recorded c v h1)"
  define h3 where "h3 = recorded k2 w
      (h2\<lparr>microtasks := [], calls := calls h2 @ [(k2, val (cells h2 c))]\<rparr>)"
  have s1: "handle n c d2 h = Some h1" using assms(1) by (simp add: handle_pending h1_def)
  have c1: "deferred (cells h1 c) = Some d2" by (simp add: h1_def)
  have s2: "resolve (Suc n) c v h1 = Some h2"
    using c1 assms(3) by (simp add: resolve_callback h2_def)
  have q2: "microtasks h2 = (c, d2) # []" using assms(10) by (simp add: h2_def h1_def)
  have v2: "val (cells h2 c) = v" by (simp add: h2_def)
  have d2: "deferred (cells h2 (h_resolve d2)) = None"
    using assms(5,8,9) by (simp add: h2_def h1_def)
  have s3: "run_microtask (Suc m) h2 = Some (Inr (), h3)"
    using run_microtask_callback [OF q2 assms(3) _ d2, of w m] assms(5,11) v2
    by (simp add: h3_def)
  have p3: "microtasks h3 = []" "calls h3 = calls h @ [(k2, v)]"
    "cells h3 k1 = cells h k1" "state (cells h3 k2) = resolved" "val (cells h3 k2) = w"
    using v2 assms(6,7) by (simp_all add: h3_def h2_def h1_def)
  from s1 c1 s2 q2 s3 p3 show ?thesis by simp
qed

text \<open>
  What \<^verbatim>\<open>resolve\<close> does on a promise that stores a handler, in an ordered heap and with
  a stack deep enough: it returns, it records the value and the state, and it calls no
  callback. With a callback in the handler it queues one microtask and leaves the child
  as it was; without one it resolves the child with the same value before it returns.
\<close>

lemma direct_resolve_stored_handler:
  assumes "ordered h" and "c < nextAddr h" and "nextAddr h - c \<le> n"
    and "deferred (cells h c) = Some d"
  shows "\<exists>h'. resolve n c v h = Some h' \<and> calls h' = calls h \<and>
     state (cells h' c) = resolved \<and> val (cells h' c) = v \<and>
     (case onResolved d of
        Some f \<Rightarrow> microtasks h' = microtasks h @ [(c, d)] \<and>
                  cells h' (h_resolve d) = cells h (h_resolve d)
      | None \<Rightarrow> state (cells h' (h_resolve d)) = resolved \<and> val (cells h' (h_resolve d)) = v)"
proof -
  from assms(2,3) obtain m where n: "n = Suc m" by (cases n) auto
  from assms(1,2,4) have lt: "c < h_resolve d" "h_resolve d < nextAddr h"
    by (auto simp: ordered_iff)
  show ?thesis
  proof (cases "onResolved d")
    case (Some f)
    with assms(4) have "resolve n c v h = Some (queueMicrotask (c, d) (recorded c v h))"
      by (simp add: n resolve_callback)
    with Some lt show ?thesis by simp
  next
    case None
    with assms(4) have eq: "resolve n c v h = resolve m (h_resolve d) v (recorded c v h)"
      by (simp add: n resolve_passthrough)
    have "ordered (recorded c v h)"
      using same_wiring_recorded assms(1) by (rule ordered_same_wiring)
    moreover have "nextAddr h - h_resolve d \<le> m" using lt assms(3) n by linarith
    ultimately obtain h' where r: "resolve m (h_resolve d) v (recorded c v h) = Some h'"
      using resolve_returns [of "recorded c v h" "h_resolve d" m v] lt by auto
    from resolve_frame [OF r] have k: "calls h' = calls h" by (simp add: same_wiring_def)
    from resolve_touch [OF r] have t: "settled_or_same v (recorded c v h) h'"
      "state (cells h' (h_resolve d)) = resolved" "val (cells h' (h_resolve d)) = v"
      by simp_all
    have "state (cells h' c) = resolved \<and> val (cells h' c) = v"
      using settled_or_same_keeps [OF t(1), of c] by simp
    with k t r eq None show ?thesis by simp
  qed
qed

text \<open>
  C1 does not hold of the code. The claim: \<^verbatim>\<open>then(f)\<close> on a promise that settles to
  \<open>v\<close> gives a child that settles to \<open>f(v)\<close>, with \<open>f\<close> called exactly once on \<open>v\<close>.
  The program: \<^verbatim>\<open>p = new Promise(resolve => { stored = resolve })\<close>,
  \<^verbatim>\<open>p.then(x => x * 2)\<close>, \<^verbatim>\<open>stored(10)\<close>, then the host drains the microtasks.
  The call of \<^verbatim>\<open>then\<close> raises a TypeError; after the settlement and the drain the
  callback has not been called and the promise at address 1, which \<^verbatim>\<open>then\<close> had begun
  to construct, is still pending. The same call on a parent that the producer has
  already settled, \<^verbatim>\<open>new Promise(resolve => resolve(10)).then(x => x * 2)\<close>, raises the
  TypeError as well.
\<close>

theorem then_callback_never_delivered:
  "then_op n 0 (Some times2) (alloc empty_heap) = Some (Inl TypeError, alloc (alloc empty_heap)) \<and>
   resolve 1 0 (Val 10) (alloc (alloc empty_heap))
     = Some (recorded 0 (Val 10) (alloc (alloc empty_heap))) \<and>
   drain k (recorded 0 (Val 10) (alloc (alloc empty_heap)))
     = Some (recorded 0 (Val 10) (alloc (alloc empty_heap))) \<and>
   calls (recorded 0 (Val 10) (alloc (alloc empty_heap))) = [] \<and>
   state_at 1 (recorded 0 (Val 10) (alloc (alloc empty_heap))) = pending \<and>
   then_op n 0 (Some times2) (settled_heap (Val 10))
     = Some (Inl TypeError, alloc (settled_heap (Val 10)))"
  by (simp add: then_op_no_property drain_empty state_at_def resolve_bare)

text \<open>
  C4 does not hold of the code. The claim: \<^verbatim>\<open>then(f)\<close> returns without having called
  \<open>f\<close>, and on a parent that is already settled \<open>f\<close> has run by the next drain of the
  microtasks. The program: \<^verbatim>\<open>new Promise(resolve => resolve(42))\<close> followed by
  \<^verbatim>\<open>.then(value => console.log(value))\<close>. The call of \<^verbatim>\<open>then\<close> does not return, it
  raises a TypeError; no microtask is queued, and after the drain the callback has
  still not been called. On a pending parent the call raises the TypeError as well.
\<close>

theorem then_on_settled_never_calls_back:
  "then_op n 0 (Some log_value) (settled_heap (Val 42))
     = Some (Inl TypeError, alloc (settled_heap (Val 42))) \<and>
   microtasks (alloc (settled_heap (Val (42::int)))) = [] \<and>
   drain k (alloc (settled_heap (Val (42::int)))) = Some (alloc (settled_heap (Val 42))) \<and>
   calls (alloc (settled_heap (Val (42::int)))) = [] \<and>
   then_op n 0 (Some log_value) (alloc empty_heap) = Some (Inl TypeError, alloc (alloc empty_heap))"
  by (simp add: then_op_no_property drain_empty)

text \<open>
  C5 does not hold of the code. The claim: \<^verbatim>\<open>then()\<close> without a callback on a promise
  that settles to \<open>v\<close> gives a child that settles to \<open>v\<close>, at once when the parent is
  already settled. The program: \<^verbatim>\<open>new Promise(resolve => resolve("ok")).then()\<close>.
  The call raises a TypeError, and the promise at address 1, which \<^verbatim>\<open>then\<close> had begun
  to construct, is pending with no value.
\<close>

theorem then_without_callback_raises:
  "then_op n 0 None (settled_heap (Val ''ok''))
     = Some (Inl TypeError, alloc (settled_heap (Val ''ok''))) \<and>
   state_at 1 (alloc (settled_heap (Val ''ok''))) = pending \<and>
   val_at 1 (alloc (settled_heap (Val ''ok''))) = Undefined"
  by (simp add: then_op_no_property state_at_def val_at_def)

text \<open>
  C9 does not hold of the code. The claim: a second \<^verbatim>\<open>then\<close> on a pending promise
  overwrites the handler the first one stored, and on settlement only the second handler
  is delivered. The program: \<^verbatim>\<open>p = new Promise(resolve => { stored = resolve })\<close>,
  \<^verbatim>\<open>p.then(x => x + 1)\<close>, \<^verbatim>\<open>p.then(x => x * 2)\<close>, \<^verbatim>\<open>stored(5)\<close>. Both calls of
  \<^verbatim>\<open>then\<close> raise a TypeError and store nothing, so nothing is overwritten, and the
  settlement delivers no handler: no microtask is queued, no callback is called, and
  both promises that \<^verbatim>\<open>then\<close> had begun to construct stay pending.
\<close>

theorem then_twice_stores_nothing:
  "then_op n 0 (Some plus1) (alloc empty_heap) = Some (Inl TypeError, alloc (alloc empty_heap)) \<and>
   then_op n 0 (Some times2) (alloc (alloc empty_heap))
     = Some (Inl TypeError, alloc (alloc (alloc empty_heap))) \<and>
   deferred (cells (alloc (alloc (alloc empty_heap))) 0) = None \<and>
   resolve 1 0 (Val 5) (alloc (alloc (alloc empty_heap)))
     = Some (recorded 0 (Val 5) (alloc (alloc (alloc empty_heap)))) \<and>
   microtasks (recorded 0 (Val 5) (alloc (alloc (alloc empty_heap)))) = [] \<and>
   calls (recorded 0 (Val 5) (alloc (alloc (alloc empty_heap)))) = [] \<and>
   state_at 1 (recorded 0 (Val 5) (alloc (alloc (alloc empty_heap)))) = pending \<and>
   state_at 2 (recorded 0 (Val 5) (alloc (alloc (alloc empty_heap)))) = pending"
  by (simp add: then_op_no_property state_at_def resolve_bare)

text \<open>
  C6 does not hold of the code. The claim: the child that \<^verbatim>\<open>then\<close> returns is pending
  at the moment \<^verbatim>\<open>then\<close> returns. In every heap a program can build, and for every
  parent and every argument, \<^verbatim>\<open>then\<close> returns no child: the call ends with the
  TypeError, so there is no heap \<open>h'\<close> and no child with which it returns.
\<close>

theorem then_returns_no_child:
  assumes "reachable h"
  shows "then_op n parent onRes h \<noteq> Some (Inr child, h')"
proof -
  from assms have "unwired h" by (rule reachable_unwired)
  then have "''handle'' \<notin> set (props (cells h parent))" by (simp add: unwired_def)
  then have "then_op n parent onRes h = Some (Inl TypeError, alloc h)"
    by (rule then_op_no_property)
  then show ?thesis by simp
qed

theorem then_returns_no_child_witness:
  "reachable (settled_heap (Val ''ok'')) \<and>
   then_op 1 0 None (settled_heap (Val ''ok''))
     \<noteq> Some (Inr 1, alloc (settled_heap (Val ''ok'')))"
  using then_returns_no_child [OF reachable_settled_heap, of 1 0 None "Val ''ok''" 1
      "alloc (settled_heap (Val ''ok''))"]
    reachable_settled_heap [of "Val ''ok''"] by simp

subsection \<open>The constructor\<close>

text \<open>
  C8. A producer that throws before it has called \<^verbatim>\<open>resolve\<close>: the constructor does
  not return, the thrown value reaches the caller unchanged, and the promise under
  construction is left pending, with no value and no handler.
\<close>

theorem producer_throw_propagates:
  "Promise (run_producer n (Throw e # ss)) h = Some (Inl (Thrown e), alloc h) \<and>
   state (cells (alloc h) (nextAddr h)) = pending \<and>
   val (cells (alloc h) (nextAddr h)) = Undefined \<and>
   deferred (cells (alloc h) (nextAddr h)) = None"
  by (simp add: Promise_alloc)

subsection \<open>resolve\<close>

text \<open>
  C7. A call of \<^verbatim>\<open>resolve\<close> with \<open>v\<close> returns, and the promise is then resolved and
  holds \<open>v\<close>. This holds for every promise of an ordered heap, whatever its state
  before the call and whether or not it stores a handler, so in particular for one that
  is pending and was never settled; the stack must be as deep as the longest chain of
  handlers can be.
\<close>

theorem resolve_records_value:
  assumes "ordered h" and "c < nextAddr h" and "nextAddr h - c \<le> n"
  shows "\<exists>h'. resolve n c v h = Some h' \<and> state (cells h' c) = resolved \<and> val (cells h' c) = v"
proof -
  from resolve_returns [OF assms] obtain h' where r: "resolve n c v h = Some h'" by blast
  from resolve_touch [OF r] r show ?thesis by simp
qed

theorem resolve_records_value_witness:
  "ordered (wired_heap (Some times2)) \<and> 0 < nextAddr (wired_heap (Some times2)) \<and>
   nextAddr (wired_heap (Some times2)) - 0 \<le> 2 \<and>
   (\<exists>h'. resolve 2 0 (Val 5) (wired_heap (Some times2)) = Some h' \<and>
      state (cells h' 0) = resolved \<and> val (cells h' 0) = Val 5)"
  using resolve_records_value [of "wired_heap (Some times2)" 0 2 "Val 5"]
  by (simp add: ordered_wired_heap) (simp add: wired_heap_def)


text \<open>
  C10. A promise \<open>c\<close> stores a handler with a callback \<open>f\<close> for a child \<open>k\<close>. After
  \<^verbatim>\<open>resolve(v)\<close> and the microtask that delivers the handler, the handler is still
  stored. A second \<^verbatim>\<open>resolve(v')\<close> is then not a no-op: it overwrites the value with
  \<open>v'\<close>, leaves the state resolved and queues the same handler again, and the microtask
  calls \<open>f\<close> a second time, on \<open>v'\<close>, and settles the child again, to \<open>f(v')\<close>.
\<close>

theorem second_settlement_redelivers:
  assumes "deferred (cells h c) = Some d" and "onResolved d = Some f" and "h_resolve d = k"
    and "k \<noteq> c" and "deferred (cells h k) = None" and "microtasks h = []"
    and "f v = Returns w" and "f v' = Returns w'"
  shows "\<exists>h1 h2 h3 h4.
      resolve (Suc n) c v h = Some h1 \<and> run_microtask (Suc m) h1 = Some (Inr (), h2) \<and>
      microtasks h2 = [] \<and> calls h2 = calls h @ [(k, v)] \<and>
      state (cells h2 k) = resolved \<and> val (cells h2 k) = w \<and>
      deferred (cells h2 c) = Some d \<and>
      resolve (Suc n) c v' h2 = Some h3 \<and>
      state (cells h3 c) = resolved \<and> val (cells h3 c) = v' \<and> microtasks h3 = [(c, d)] \<and>
      run_microtask (Suc m) h3 = Some (Inr (), h4) \<and>
      calls h4 = calls h @ [(k, v), (k, v')] \<and>
      state (cells h4 k) = resolved \<and> val (cells h4 k) = w'"
proof -
  define h1 where "h1 = queueMicrotask (c, d) (recorded c v h)"
  define h2 where "h2 = recorded k w
      (h1\<lparr>microtasks := [], calls := calls h1 @ [(k, val (cells h1 c))]\<rparr>)"
  define h3 where "h3 = queueMicrotask (c, d) (recorded c v' h2)"
  define h4 where "h4 = recorded k w'
      (h3\<lparr>microtasks := [], calls := calls h3 @ [(k, val (cells h3 c))]\<rparr>)"
  have s1: "resolve (Suc n) c v h = Some h1"
    using assms(1,2) by (simp add: resolve_callback h1_def)
  have q1: "microtasks h1 = (c, d) # []" using assms(6) by (simp add: h1_def)
  have v1: "val (cells h1 c) = v" by (simp add: h1_def)
  have d1: "deferred (cells h1 (h_resolve d)) = None" using assms(3,4,5) by (simp add: h1_def)
  have s2: "run_microtask (Suc m) h1 = Some (Inr (), h2)"
    using run_microtask_callback [OF q1 assms(2) _ d1, of w m] assms(3,7) v1
    by (simp add: h2_def)
  have c2: "deferred (cells h2 c) = Some d" using assms(1,4) by (simp add: h2_def h1_def)
  have s3: "resolve (Suc n) c v' h2 = Some h3"
    using c2 assms(2) by (simp add: resolve_callback h3_def)
  have q3: "microtasks h3 = (c, d) # []" by (simp add: h3_def h2_def)
  have v3: "val (cells h3 c) = v'" by (simp add: h3_def)
  have d3: "deferred (cells h3 (h_resolve d)) = None"
    using assms(3,4,5) by (simp add: h3_def h2_def h1_def)
  have s4: "run_microtask (Suc m) h3 = Some (Inr (), h4)"
    using run_microtask_callback [OF q3 assms(2) _ d3, of w' m] assms(3,8) v3
    by (simp add: h4_def)
  have p2: "microtasks h2 = []" "calls h2 = calls h @ [(k, v)]"
    "state (cells h2 k) = resolved" "val (cells h2 k) = w"
    using v1 by (simp_all add: h2_def h1_def)
  have p3: "state (cells h3 c) = resolved" by (simp add: h3_def)
  have p4: "calls h4 = calls h @ [(k, v), (k, v')]"
    "state (cells h4 k) = resolved" "val (cells h4 k) = w'"
    using v3 p2(2) by (simp_all add: h4_def h3_def)
  from s1 s2 p2 c2 s3 p3 v3 q3 s4 p4 show ?thesis by simp
qed

theorem second_settlement_redelivers_witness:
  "deferred (cells (wired_heap (Some times2)) 0)
     = Some \<lparr>onResolved = Some times2, h_resolve = 1\<rparr> \<and>
   onResolved \<lparr>onResolved = Some times2, h_resolve = 1\<rparr> = Some times2 \<and>
   h_resolve \<lparr>onResolved = Some times2, h_resolve = 1\<rparr> = 1 \<and> (1::nat) \<noteq> 0 \<and>
   deferred (cells (wired_heap (Some times2)) 1) = None \<and>
   microtasks (wired_heap (Some times2)) = [] \<and>
   times2 (Val 5) = Returns (Val 10) \<and> times2 (Val 7) = Returns (Val 14) \<and>
   (\<exists>h1 h2 h3 h4.
      resolve 1 0 (Val 5) (wired_heap (Some times2)) = Some h1 \<and>
      run_microtask 1 h1 = Some (Inr (), h2) \<and>
      microtasks h2 = [] \<and> calls h2 = [(1, Val 5)] \<and>
      state (cells h2 1) = resolved \<and> val (cells h2 1) = Val 10 \<and>
      deferred (cells h2 0) = Some \<lparr>onResolved = Some times2, h_resolve = 1\<rparr> \<and>
      resolve 1 0 (Val 7) h2 = Some h3 \<and>
      state (cells h3 0) = resolved \<and> val (cells h3 0) = Val 7 \<and>
      microtasks h3 = [(0, \<lparr>onResolved = Some times2, h_resolve = 1\<rparr>)] \<and>
      run_microtask 1 h3 = Some (Inr (), h4) \<and>
      calls h4 = [(1, Val 5), (1, Val 7)] \<and>
      state (cells h4 1) = resolved \<and> val (cells h4 1) = Val 14)"
proof -
  have w: "deferred (cells (wired_heap (Some times2)) 0)
      = Some \<lparr>onResolved = Some times2, h_resolve = 1\<rparr>"
    "deferred (cells (wired_heap (Some times2)) 1) = None"
    "microtasks (wired_heap (Some times2)) = []" "calls (wired_heap (Some times2)) = []"
    by (simp_all add: wired_heap_def)
  have t: "times2 (Val 5) = Returns (Val 10)" "times2 (Val 7) = Returns (Val 14)"
    by (simp_all add: times2_def)
  from second_settlement_redelivers [of "wired_heap (Some times2)" 0
      "\<lparr>onResolved = Some times2, h_resolve = 1\<rparr>" times2 1 "Val 5" "Val 10" "Val 7" "Val 14" 0 0]
  show ?thesis using w t by simp
qed

end
